theory Spec2Isabelle
  imports Complex_Main "HOL-Library.Log_Nat" "HOL-Library.Product_Lexorder"
    "HOL-Library.Multiset"
begin

section \<open>Python values and errors\<close>

text \<open>
  The exceptions the program can raise.  \<open>InvalidParameters\<close> and \<open>InvalidInequality\<close> are
  the two \<^verbatim>\<open>ValueError\<close>s raised by the program itself; \<open>CombValueError\<close> is the
  \<^verbatim>\<open>ValueError\<close> of \<^verbatim>\<open>math.comb\<close> on a negative argument; \<open>OverflowError\<close> is raised
  by \<^verbatim>\<open>math.comb\<close> on arguments beyond its range and by a float division whose quotient
  is beyond the float range; \<open>TypeError\<close> is raised by subscripting a float.
\<close>

datatype error =
    InvalidParameters
  | InvalidInequality
  | CombValueError
  | ZeroDivisionError
  | OverflowError
  | TypeError

definition err_bind :: "error + 'a \<Rightarrow> ('a \<Rightarrow> error + 'b) \<Rightarrow> error + 'b" where
  "err_bind m f = (case m of Inl e \<Rightarrow> Inl e | Inr v \<Rightarrow> f v)"

text \<open>
  A Python float is an IEEE binary64 value; it is represented by the rational number it
  denotes, or one of the special values.  The sign of zero is not represented: no
  operation of the program observes it.
\<close>

datatype pyfloat = Finite rat | PosInf | NegInf | NaN

definition round_half_even :: "rat \<Rightarrow> int" where
  "round_half_even x =
     (let f = \<lfloor>x\<rfloor>; r = x - of_int f
      in if r < 1 / 2 then f
         else if 1 / 2 < r then f + 1
         else if even f then f else f + 1)"

text \<open>The position of the leading bit of a positive rational: \<open>\<lfloor>log\<^sub>2 x\<rfloor>\<close>.\<close>

definition floor_log2 :: "rat \<Rightarrow> int" where
  "floor_log2 x =
     (let d = bitlen (fst (quotient_of x)) - bitlen (snd (quotient_of x))
      in if 2 powi d \<le> x then d else d - 1)"

text \<open>
  The binary64 number nearest to a non-negative rational, ties to even: 53 significant
  bits, the unit in the last place never below \<open>2\<^sup>-\<^sup>1\<^sup>0\<^sup>7\<^sup>4\<close> (subnormal numbers).
\<close>

definition nearest_binary64 :: "rat \<Rightarrow> rat" where
  "nearest_binary64 x =
     (if x = 0 then 0
      else let q = max (floor_log2 x - 52) (- 1074)
           in of_int (round_half_even (x / 2 powi q)) * 2 powi q)"

definition round_to_float :: "rat \<Rightarrow> pyfloat" where
  "round_to_float x =
     (let y = nearest_binary64 \<bar>x\<bar>
      in if 2 ^ 1024 \<le> y then (if 0 < x then PosInf else NegInf)
         else Finite (sgn x * y))"

text \<open>
  \<^verbatim>\<open>a / b\<close> on Python ints: the correctly rounded quotient; division by zero and a
  quotient beyond the float range raise.
\<close>

definition py_truediv :: "int \<Rightarrow> int \<Rightarrow> error + pyfloat" where
  "py_truediv a b =
     (if b = 0 then Inl ZeroDivisionError
      else case round_to_float (of_int a / of_int b) of
             Finite y \<Rightarrow> Inr (Finite y)
           | _ \<Rightarrow> Inl OverflowError)"

text \<open>\<^verbatim>\<open>a // b\<close> on Python ints: floor division, as \<open>div\<close> on \<open>int\<close>.\<close>

definition py_floordiv :: "int \<Rightarrow> int \<Rightarrow> error + int" where
  "py_floordiv a b = (if b = 0 then Inl ZeroDivisionError else Inr (a div b))"

text \<open>\<^verbatim>\<open>a % b\<close> on Python ints: the sign of the result follows the divisor, as \<open>mod\<close>.\<close>

definition py_mod :: "int \<Rightarrow> int \<Rightarrow> error + int" where
  "py_mod a b = (if b = 0 then Inl ZeroDivisionError else Inr (a mod b))"

fun float_add :: "pyfloat \<Rightarrow> pyfloat \<Rightarrow> pyfloat" where
  "float_add (Finite x) (Finite y) = round_to_float (x + y)"
| "float_add NaN _ = NaN"
| "float_add _ NaN = NaN"
| "float_add PosInf NegInf = NaN"
| "float_add NegInf PosInf = NaN"
| "float_add PosInf _ = PosInf"
| "float_add _ PosInf = PosInf"
| "float_add NegInf _ = NegInf"
| "float_add _ NegInf = NegInf"

text \<open>Comparison of an int with a float is exact in Python.\<close>

fun int_eq_float :: "int \<Rightarrow> pyfloat \<Rightarrow> bool" where
  "int_eq_float i (Finite y) = (of_int i = y)"
| "int_eq_float i _ = False"

fun int_gt_float :: "int \<Rightarrow> pyfloat \<Rightarrow> bool" where
  "int_gt_float i (Finite y) = (y < of_int i)"
| "int_gt_float i NegInf = True"
| "int_gt_float i _ = False"

text \<open>
  \<^verbatim>\<open>math.comb(n, k)\<close> of CPython: a \<^verbatim>\<open>ValueError\<close> on a negative argument; 0 when
  \<open>k > n\<close>; otherwise \<open>k\<close> is replaced by \<open>min k (n - k)\<close>, which has to fit a C
  \<^verbatim>\<open>long long\<close>: beyond \<open>2\<^sup>6\<^sup>3 - 1\<close> the function raises an \<^verbatim>\<open>OverflowError\<close>
  (\<^verbatim>\<open>min(n - k, k) must not exceed 9223372036854775807\<close>).  Time and memory are not
  modelled.
\<close>

definition comb :: "int \<Rightarrow> int \<Rightarrow> error + int" where
  "comb n k =
     (if n < 0 \<or> k < 0 then Inl CombValueError
      else if k > n then Inr 0
      else if min k (n - k) > 2 ^ 63 - 1 then Inl OverflowError
      else Inr (int (nat n choose nat k)))"

section \<open>Hypergeometric calculator\<close>

text \<open>
  \<^verbatim>\<open>hypergeometric_pmf\<close> returns the bare float \<^verbatim>\<open>0.0\<close> on its second early exit
  (line 36) and a triple at its end (line 49).
\<close>

datatype pmf_result = Bare pyfloat | Triple pyfloat int int

definition hypergeometric_pmf :: "int \<Rightarrow> int \<Rightarrow> int \<Rightarrow> int \<Rightarrow> error + pmf_result" where
  "hypergeometric_pmf total_population total_successes draws target_successes =
     (if total_successes > total_population \<or> draws > total_population
         \<or> total_population < 1
      then Inl InvalidParameters
      else if target_successes > draws \<or> target_successes > total_successes
         \<or> target_successes < 0
      then Inr (Bare (Finite 0))
      else
        err_bind (comb total_successes target_successes) (\<lambda>term_1.
        err_bind (comb (total_population - total_successes) (draws - target_successes)) (\<lambda>term_2.
        err_bind (comb total_population draws) (\<lambda>term_3.
        err_bind (py_truediv (term_1 * term_2) term_3) (\<lambda>p_value.
        let fraction_gcd = gcd (term_1 * term_2) term_3 in
        err_bind (py_floordiv (term_1 * term_2) fraction_gcd) (\<lambda>numerator.
        err_bind (py_floordiv term_3 fraction_gcd) (\<lambda>denominator.
        Inr (Triple p_value numerator denominator))))))))"

text \<open>\<^verbatim>\<open>r[0]\<close>: the first component of a tuple; a float is not subscriptable.\<close>

fun subscript0 :: "pmf_result \<Rightarrow> error + pyfloat" where
  "subscript0 (Triple p _ _) = Inr p"
| "subscript0 (Bare _) = Inl TypeError"

text \<open>
  The list comprehension of lines 92-93: one call of the pmf per \<open>k\<close>, in order; the
  first exception ends it.
\<close>

fun outcomes_of :: "int \<Rightarrow> int \<Rightarrow> int \<Rightarrow> int list \<Rightarrow> error + pyfloat list" where
  "outcomes_of N K n [] = Inr []"
| "outcomes_of N K n (k # ks) =
     err_bind (hypergeometric_pmf N K n k) (\<lambda>r.
     err_bind (subscript0 r) (\<lambda>p.
     err_bind (outcomes_of N K n ks) (\<lambda>ps. Inr (p # ps))))"

text \<open>
  \<^verbatim>\<open>sum(outcomes)\<close> starts from the int 0: the sum of no floats is the int 0, otherwise
  the floats are added to \<open>0.0\<close> from the left.
\<close>

datatype pynum = PyInt int | PyFloat pyfloat

fun py_sum :: "pyfloat list \<Rightarrow> pynum" where
  "py_sum [] = PyInt 0"
| "py_sum (f # fs) = PyFloat (foldl float_add (float_add (Finite 0) f) fs)"

text \<open>\<^verbatim>\<open>range(a, b)\<close> is \<open>[a..b - 1]\<close>.\<close>

definition k_values_of :: "string \<Rightarrow> int \<Rightarrow> int \<Rightarrow> error + int list" where
  "k_values_of inequality target_successes max_successes =
     (if inequality = ''eq'' then Inr [target_successes]
      else if inequality = ''lte'' then Inr [0..target_successes + 1 - 1]
      else if inequality = ''lt'' then Inr [0..target_successes - 1]
      else if inequality = ''gte'' then Inr [target_successes..max_successes + 1 - 1]
      else if inequality = ''gt'' then Inr [target_successes + 1..max_successes + 1 - 1]
      else if inequality = ''neq'' then
        Inr ([0..target_successes - 1] @ [target_successes + 1..max_successes + 1 - 1])
      else Inl InvalidInequality)"

definition hypergeometric_cdf ::
    "int \<Rightarrow> int \<Rightarrow> int \<Rightarrow> int \<Rightarrow> string \<Rightarrow> error + pynum" where
  "hypergeometric_cdf total_population total_successes draws target_successes inequality =
     (let max_successes = min draws total_successes in
      err_bind (k_values_of inequality target_successes max_successes) (\<lambda>k_values.
      err_bind (outcomes_of total_population total_successes draws k_values) (\<lambda>outcomes.
      Inr (py_sum outcomes))))"

section \<open>Distribution enumerator and threshold locator\<close>

text \<open>
  \<^verbatim>\<open>itertools.product(*pools)\<close>: the tuples of the Cartesian product, the last position
  varying fastest.
\<close>

fun itertools_product :: "'a list list \<Rightarrow> 'a list list" where
  "itertools_product [] = [[]]"
| "itertools_product (pool # pools) =
     concat (map (\<lambda>x. map ((#) x) (itertools_product pools)) pool)"

text \<open>
  \<^verbatim>\<open>collections.Counter(xs)\<close> as the list of its items in insertion order: a key met
  again has its count incremented in place, a new key is appended with count 1.
\<close>

fun counter_update :: "int \<Rightarrow> (int \<times> int) list \<Rightarrow> (int \<times> int) list" where
  "counter_update x [] = [(x, 1)]"
| "counter_update x ((k, c) # items) =
     (if k = x then (k, c + 1) # items else (k, c) # counter_update x items)"

definition Counter :: "int list \<Rightarrow> (int \<times> int) list" where
  "Counter xs = fold counter_update xs []"

text \<open>
  \<^verbatim>\<open>sorted(items, reverse=True)\<close> on pairs of ints, which Python compares
  lexicographically: equal pairs are the same value, so the descending stable sort is the
  reversed ascending sort.
\<close>

definition sorted_reverse :: "(int \<times> int) list \<Rightarrow> (int \<times> int) list" where
  "sorted_reverse items = rev (sort items)"

text \<open>
  The values that a list of items stands for, every key repeated as many times as its
  count (what \<^verbatim>\<open>Counter.elements()\<close> lists).  The program does not call it; the
  properties of the distribution are stated with it.
\<close>

definition elements :: "(int \<times> int) list \<Rightarrow> int list" where
  "elements items = concat (map (\<lambda>(k, c). replicate (nat c) k) items)"

text \<open>Lines 114-116: the product of the face counts.\<close>

definition num_cases_of :: "int list \<Rightarrow> int" where
  "num_cases_of dice = fold (\<lambda>d num_cases. num_cases * d) dice 1"

text \<open>Line 121: \<^verbatim>\<open>numerator * num_cases / denominator\<close>, a float.\<close>

definition target_cases_of :: "int \<Rightarrow> int \<Rightarrow> int \<Rightarrow> error + pyfloat" where
  "target_cases_of numerator num_cases denominator =
     py_truediv (numerator * num_cases) denominator"

text \<open>Lines 123-125: the sums of all rolls, counted, as items in descending order.\<close>

definition rolls_of :: "int list \<Rightarrow> int list list" where
  "rolls_of dice = itertools_product (map (\<lambda>d. [1..d + 1 - 1]) dice)"

definition distro_of :: "int list \<Rightarrow> (int \<times> int) list" where
  "distro_of dice = sorted_reverse (Counter (map sum_list (rolls_of dice)))"

text \<open>
  Lines 127-133: the scan.  The loop has no \<^verbatim>\<open>else\<close> and no statement follows it: when
  the items are used up the function returns Python's \<^verbatim>\<open>None\<close>, here \<open>None\<close>.
\<close>

fun scan_distro :: "pyfloat \<Rightarrow> int \<Rightarrow> (int \<times> int) list \<Rightarrow> int option" where
  "scan_distro target_cases cum_cases [] = None"
| "scan_distro target_cases cum_cases ((threshold, freq) # distro) =
     (let cum_cases = cum_cases + freq
      in if int_eq_float cum_cases target_cases then Some threshold
         else if int_gt_float cum_cases target_cases then Some 0
         else scan_distro target_cases cum_cases distro)"

definition validate_distro :: "int \<Rightarrow> int \<Rightarrow> int list \<Rightarrow> error + int option" where
  "validate_distro numerator denominator dice =
     (let num_cases = num_cases_of dice in
      err_bind (py_mod num_cases denominator) (\<lambda>r.
      if r \<noteq> 0 then Inr (Some 0)
      else
        err_bind (target_cases_of numerator num_cases denominator) (\<lambda>target_cases.
        Inr (scan_distro target_cases 0 (distro_of dice)))))"

section \<open>Combination search\<close>

text \<open>
  \<^verbatim>\<open>itertools.combinations_with_replacement(pool, r)\<close>: the selections of \<open>r\<close> positions
  of the pool, positions non-decreasing, in lexicographic order of positions.
\<close>

fun combinations_with_replacement :: "'a list \<Rightarrow> nat \<Rightarrow> 'a list list" where
  "combinations_with_replacement pool 0 = [[]]"
| "combinations_with_replacement [] (Suc r) = []"
| "combinations_with_replacement (x # pool) (Suc r) =
     map ((#) x) (combinations_with_replacement (x # pool) r)
     @ combinations_with_replacement pool (Suc r)"

type_synonym solution = "int list \<times> int"

text \<open>
  Lines 156-159, the inner loop: \<^verbatim>\<open>if threshold:\<close> holds for an int other than 0; it
  fails for 0 and for \<^verbatim>\<open>None\<close>.
\<close>

fun collect_solutions ::
    "int \<Rightarrow> int \<Rightarrow> int list list \<Rightarrow> solution list \<Rightarrow> error + solution list" where
  "collect_solutions numerator denominator [] solutions = Inr solutions"
| "collect_solutions numerator denominator (dice # rest) solutions =
     (case validate_distro numerator denominator dice of
        Inl e \<Rightarrow> Inl e
      | Inr threshold \<Rightarrow>
          collect_solutions numerator denominator rest
            (case threshold of
               Some t \<Rightarrow> if t \<noteq> 0 then solutions @ [(dice, t)] else solutions
             | None \<Rightarrow> solutions))"

text \<open>Lines 155-160, the outer loop on the size \<open>N\<close>.\<close>

function find_dice_loop ::
    "int \<Rightarrow> int \<Rightarrow> int list \<Rightarrow> int \<Rightarrow> int \<Rightarrow> solution list \<Rightarrow> error + solution list" where
  "find_dice_loop numerator denominator dice_set limit N solutions =
     (if N \<le> limit \<and> solutions = [] then
        (case collect_solutions numerator denominator
                (combinations_with_replacement dice_set (nat N)) solutions of
           Inl e \<Rightarrow> Inl e
         | Inr solutions' \<Rightarrow>
             find_dice_loop numerator denominator dice_set limit (N + 1) solutions')
      else Inr solutions)"
  by pat_completeness auto
termination
  by (relation "measure (\<lambda>(numerator, denominator, dice_set, limit, N, solutions).
        nat (limit + 1 - N))") auto

text \<open>The parameter \<open>p_value\<close> is not used by the function.\<close>

definition find_dice ::
    "'p \<Rightarrow> int \<Rightarrow> int \<Rightarrow> int list \<Rightarrow> int \<Rightarrow> error + solution list" where
  "find_dice p_value numerator denominator dice_set limit =
     find_dice_loop numerator denominator dice_set limit 1 []"

definition RPG_DICE_SET :: "int list" where
  "RPG_DICE_SET = [4, 6, 8, 10, 12, 20]"

text \<open>
  The selections of a list of candidates that yield a threshold other than 0, each paired
  with its threshold, in the order of the candidates.
\<close>

definition nonzero_thresholds :: "int \<Rightarrow> int \<Rightarrow> int list list \<Rightarrow> solution list" where
  "nonzero_thresholds numerator denominator candidates =
     concat (map (\<lambda>dice. case validate_distro numerator denominator dice of
                            Inr (Some t) \<Rightarrow> if t \<noteq> 0 then [(dice, t)] else []
                          | _ \<Rightarrow> []) candidates)"

subsection \<open>The die set as a shared list object\<close>

text \<open>
  The default of \<open>dice_set\<close> is the module's list object \<^verbatim>\<open>RPG_DICE_SET\<close>, bound once when
  the function is defined; an argument is the caller's list object.  A store maps the
  address of a list object to its contents.  The function reads the object once per
  size, when \<^verbatim>\<open>combinations_with_replacement\<close> copies it into its pool, and has no
  statement that writes to it; the list \<open>solutions\<close> it appends to is its own.
\<close>

type_synonym store = "nat \<Rightarrow> int list"

definition RPG_DICE_SET_ref :: nat where
  "RPG_DICE_SET_ref = 0"

function find_dice_loop_st ::
    "store \<Rightarrow> int \<Rightarrow> int \<Rightarrow> nat \<Rightarrow> int \<Rightarrow> int \<Rightarrow> solution list
       \<Rightarrow> (error + solution list) \<times> store" where
  "find_dice_loop_st h numerator denominator dice_set limit N solutions =
     (if N \<le> limit \<and> solutions = [] then
        (let pool = h dice_set in
         case collect_solutions numerator denominator
                (combinations_with_replacement pool (nat N)) solutions of
           Inl e \<Rightarrow> (Inl e, h)
         | Inr solutions' \<Rightarrow>
             find_dice_loop_st h numerator denominator dice_set limit (N + 1) solutions')
      else (Inr solutions, h))"
  by pat_completeness auto
termination
  by (relation "measure (\<lambda>(h, numerator, denominator, dice_set, limit, N, solutions).
        nat (limit + 1 - N))") auto

definition find_dice_st ::
    "store \<Rightarrow> 'p \<Rightarrow> int \<Rightarrow> int \<Rightarrow> nat option \<Rightarrow> int \<Rightarrow> (error + solution list) \<times> store" where
  "find_dice_st h p_value numerator denominator dice_set limit =
     find_dice_loop_st h numerator denominator
       (case dice_set of None \<Rightarrow> RPG_DICE_SET_ref | Some r \<Rightarrow> r) limit 1 []"

section \<open>Properties of the float model\<close>

lemma round_half_even_of_int: "round_half_even (of_int n) = n"
  by (simp add: round_half_even_def)

lemma round_half_even_le: 
  assumes "x \<le> of_int n" shows "round_half_even x \<le> n"
proof -
  have f: "\<lfloor>x\<rfloor> \<le> n" using assms by (simp add: floor_le_iff)
  show ?thesis
  proof (cases "\<lfloor>x\<rfloor> = n")
    case True
    with assms have "x - of_int \<lfloor>x\<rfloor> \<le> 0" by simp
    then have "x - of_int \<lfloor>x\<rfloor> < 1 / 2" by linarith
    then show ?thesis using True by (simp add: round_half_even_def Let_def)
  next
    case False
    with f have "\<lfloor>x\<rfloor> + 1 \<le> n" by simp
    then show ?thesis by (simp add: round_half_even_def Let_def)
  qed
qed

lemma floor_log2_le: 
  assumes "0 < x" "x \<le> 1" shows "floor_log2 x \<le> 0"
proof -
  obtain a b where ab: "quotient_of x = (a, b)" by (cases "quotient_of x")
  then have b: "0 < b" and x: "x = of_int a / of_int b"
    using quotient_of_denom_pos quotient_of_div by auto
  from x b assms have "a \<le> b" by (simp add: divide_le_eq)
  then have "bitlen a \<le> bitlen b" by (simp add: bitlen_def floorlog_mono)
  then show ?thesis by (simp add: floor_log2_def ab Let_def)
qed

lemma nearest_binary64_le_1:
  assumes "0 \<le> x" "x \<le> 1" shows "nearest_binary64 x \<le> 1"
proof (cases "x = 0")
  case True then show ?thesis by (simp add: nearest_binary64_def)
next
  case False
  with assms have pos: "0 < x" by simp
  define q where "q = max (floor_log2 x - 52) (- 1074)"
  have q: "q \<le> 0" using floor_log2_le[OF pos assms(2)] by (simp add: q_def)
  define k where "k = nat (- q)"
  have qk: "q = - int k" using q by (simp add: k_def)
  have p: "(2::rat) powi q = 1 / 2 ^ k" by (simp add: qk power_int_minus field_simps)
  have "x / 2 powi q = x * 2 ^ k" by (simp add: p)
  also have "\<dots> \<le> 2 ^ k" using assms by simp
  also have "\<dots> = of_int (2 ^ k)" by simp
  finally have "round_half_even (x / 2 powi q) \<le> 2 ^ k" by (rule round_half_even_le)
  then have "(of_int (round_half_even (x / 2 powi q)) :: rat) \<le> 2 ^ k"
    by (metis of_int_le_iff of_int_numeral of_int_power)
  then have "(of_int (round_half_even (x / 2 powi q)) :: rat) * 2 powi q \<le> 1"
    by (simp add: p field_simps)
  then show ?thesis using False by (simp add: nearest_binary64_def q_def Let_def)
qed

lemma round_to_float_unit:
  assumes "0 \<le> x" "x \<le> 1" shows "\<exists>y. round_to_float x = Finite y"
proof -
  have "nearest_binary64 \<bar>x\<bar> \<le> 1" using assms nearest_binary64_le_1 by simp
  moreover have "(1::rat) < 2 ^ 1024" by simp
  ultimately have "\<not> 2 ^ 1024 \<le> nearest_binary64 \<bar>x\<bar>" by linarith
  then show ?thesis by (simp add: round_to_float_def Let_def)
qed

lemma hypergeometric_terms_le:
  assumes "k \<le> n" "k \<le> K" "K \<le> N" "n \<le> N"
  shows "(K choose k) * ((N - K) choose (n - k)) \<le> (N choose n)"
proof -
  have "(K choose k) * ((N - K) choose (n - k)) \<le> (\<Sum>j\<le>n. (K choose j) * ((N - K) choose (n - j)))"
    using assms(1) by (intro member_le_sum) auto
  also have "\<dots> = (K + (N - K)) choose n" by (simp add: vandermonde)
  also have "\<dots> = N choose n" using assms by simp
  finally show ?thesis .
qed


lemma py_truediv_unit:
  assumes "0 \<le> a" "a \<le> b" "0 < b"
  shows "\<exists>y. py_truediv a b = Inr (Finite y)"
proof -
  have "0 \<le> (of_int a / of_int b :: rat)" "(of_int a / of_int b :: rat) \<le> 1"
    using assms by simp_all
  then obtain y where "round_to_float (of_int a / of_int b) = Finite y"
    using round_to_float_unit by blast
  then show ?thesis using assms by (simp add: py_truediv_def)
qed

lemma comb_nonneg:
  assumes "0 \<le> n" "0 \<le> k"
  shows "comb n k =
           (if k \<le> n \<and> 2 ^ 63 - 1 < min k (n - k) then Inl OverflowError
            else Inr (int (nat n choose nat k)))"
  using assms by (simp add: comb_def)

lemma pmf_cases:
  assumes "K \<le> N" "n \<le> N" "1 \<le> N" "0 \<le> k" "k \<le> n" "k \<le> K"
  defines "a \<equiv> int (nat K choose nat k) * int (nat (N - K) choose nat (n - k))"
      and "b \<equiv> int (nat N choose nat n)"
  shows "0 < b \<and> a \<le> b \<and>
         (if 2 ^ 63 - 1 < min k (K - k)
             \<or> (n - k \<le> N - K \<and> 2 ^ 63 - 1 < min (n - k) (N - K - (n - k)))
             \<or> 2 ^ 63 - 1 < min n (N - n)
          then hypergeometric_pmf N K n k = Inl OverflowError
          else \<exists>p. hypergeometric_pmf N K n k
                  = Inr (Triple p (a div gcd a b) (b div gcd a b)))"
proof -
  have b: "0 < b" using assms by (simp add: b_def nat_le_eq_zle)
  have "(nat K choose nat k) * ((nat N - nat K) choose (nat n - nat k)) \<le> (nat N choose nat n)"
    using assms by (intro hypergeometric_terms_le) auto
  moreover have "nat (N - K) = nat N - nat K" "nat (n - k) = nat n - nat k"
    using assms by (simp_all add: nat_diff_distrib)
  ultimately have ab: "a \<le> b" unfolding a_def b_def
    by (metis of_nat_le_iff of_nat_mult)
  have a: "0 \<le> a" by (simp add: a_def)
  obtain y where y: "py_truediv a b = Inr (Finite y)"
    using py_truediv_unit[OF a ab b] by blast
  have g: "gcd a b \<noteq> 0" using b by simp
  define o1 where "o1 \<longleftrightarrow> 2 ^ 63 - 1 < min k (K - k)"
  define o2 where "o2 \<longleftrightarrow> n - k \<le> N - K \<and> 2 ^ 63 - 1 < min (n - k) (N - K - (n - k))"
  define o3 where "o3 \<longleftrightarrow> 2 ^ 63 - 1 < min n (N - n)"
  define t1 where "t1 = int (nat K choose nat k)"
  define t2 where "t2 = int (nat (N - K) choose nat (n - k))"
  have at: "a = t1 * t2" by (simp add: a_def t1_def t2_def)
  have c1: "comb K k = (if o1 then Inl OverflowError else Inr t1)"
    unfolding o1_def t1_def using assms(1-6) by (simp add: comb_nonneg)
  have c2: "comb (N - K) (n - k) = (if o2 then Inl OverflowError else Inr t2)"
    unfolding o2_def t2_def using assms(1-6) by (simp add: comb_nonneg)
  have c3: "comb N n = (if o3 then Inl OverflowError else Inr b)"
    unfolding o3_def b_def using assms(1-6) by (simp add: comb_nonneg)
  have p: "hypergeometric_pmf N K n k =
             err_bind (comb K k) (\<lambda>term_1.
             err_bind (comb (N - K) (n - k)) (\<lambda>term_2.
             err_bind (comb N n) (\<lambda>term_3.
             err_bind (py_truediv (term_1 * term_2) term_3) (\<lambda>p_value.
             let fraction_gcd = gcd (term_1 * term_2) term_3 in
             err_bind (py_floordiv (term_1 * term_2) fraction_gcd) (\<lambda>numerator.
             err_bind (py_floordiv term_3 fraction_gcd) (\<lambda>denominator.
             Inr (Triple p_value numerator denominator)))))))"
    using assms(1-6) by (simp add: hypergeometric_pmf_def)
  have r: "if o1 \<or> o2 \<or> o3
          then hypergeometric_pmf N K n k = Inl OverflowError
          else \<exists>p. hypergeometric_pmf N K n k
                  = Inr (Triple p (a div gcd a b) (b div gcd a b))"
  proof (cases "o1 \<or> o2 \<or> o3")
    case True
    then have "hypergeometric_pmf N K n k = Inl OverflowError"
      unfolding p c1 c2 c3 by (auto simp: err_bind_def)
    with True show ?thesis by simp
  next
    case False
    then have "hypergeometric_pmf N K n k
                 = Inr (Triple (Finite y) (a div gcd a b) (b div gcd a b))"
      unfolding p c1 c2 c3 using y g b
      by (simp add: err_bind_def py_floordiv_def at[symmetric] Let_def)
    with False show ?thesis by simp
  qed
  from b ab r show ?thesis unfolding o1_def o2_def o3_def by (intro conjI)
qed

lemma pmf_small_population:
  assumes "K \<le> N" "n \<le> N" "0 \<le> k" "k \<le> n" "k \<le> K" "N < (2 ^ 64 :: int)"
  shows "\<not> (2 ^ 63 - 1 < min k (K - k)
             \<or> (n - k \<le> N - K \<and> 2 ^ 63 - 1 < min (n - k) (N - K - (n - k)))
             \<or> 2 ^ 63 - 1 < min n (N - n))"
  using assms by auto

text \<open>
  Claim C7 says that no input other than \<open>successes > population\<close>, \<open>draws > population\<close> or
  \<open>population < 1\<close> makes the pmf raise.  For a population of \<open>2\<^sup>6\<^sup>4\<close>, all of them
  successes, and \<open>2\<^sup>6\<^sup>3\<close> successes in \<open>2\<^sup>6\<^sup>3\<close> draws, both checks pass and the first call
  of \<^verbatim>\<open>math.comb\<close> (line 39) raises an \<^verbatim>\<open>OverflowError\<close>.
\<close>

theorem hypergeometric_pmf_comb_overflow:
  "hypergeometric_pmf (2 ^ 64) (2 ^ 64) (2 ^ 63) (2 ^ 63) = Inl OverflowError
   \<and> \<not> ((2 ^ 64 :: int) > 2 ^ 64 \<or> (2 ^ 63 :: int) > 2 ^ 64 \<or> (2 ^ 64 :: int) < 1)"
  by (simp add: hypergeometric_pmf_def comb_def err_bind_def)

text \<open>
  Claim C7, amended.  The pmf raises the invalid-parameters error exactly when
  \<open>successes > population\<close>, \<open>draws > population\<close> or \<open>population < 1\<close>.  Its only other
  exception is the \<^verbatim>\<open>OverflowError\<close> of \<^verbatim>\<open>math.comb\<close>, raised exactly when both checks
  pass and one of the three calls of lines 39-41 has \<open>min k (n - k)\<close> above \<open>2\<^sup>6\<^sup>3 - 1\<close>;
  on every other integer input the pmf returns a value.  For a population below \<open>2\<^sup>6\<^sup>4\<close>
  no call overflows: there the pmf raises exactly on the three conditions.
\<close>

theorem hypergeometric_pmf_raises_cases:
  "(hypergeometric_pmf N K n k = Inl e \<longleftrightarrow>
      e = InvalidParameters \<and> (K > N \<or> n > N \<or> N < 1)
    \<or> e = OverflowError \<and> K \<le> N \<and> n \<le> N \<and> 1 \<le> N \<and> 0 \<le> k \<and> k \<le> n \<and> k \<le> K
        \<and> (2 ^ 63 - 1 < min k (K - k)
           \<or> (n - k \<le> N - K \<and> 2 ^ 63 - 1 < min (n - k) (N - K - (n - k)))
           \<or> 2 ^ 63 - 1 < min n (N - n)))
   \<and> (N < 2 ^ 64 \<longrightarrow>
        (hypergeometric_pmf N K n k = Inl e \<longleftrightarrow>
           e = InvalidParameters \<and> (K > N \<or> n > N \<or> N < 1)))"
proof (cases "K > N \<or> n > N \<or> N < 1")
  case True
  then have "hypergeometric_pmf N K n k = Inl InvalidParameters"
    by (simp add: hypergeometric_pmf_def)
  with True show ?thesis by auto
next
  case valid: False
  show ?thesis
  proof (cases "k > n \<or> k > K \<or> k < 0")
    case True
    with valid have "hypergeometric_pmf N K n k = Inr (Bare (Finite 0))"
      by (simp add: hypergeometric_pmf_def)
    with valid True show ?thesis by auto
  next
    case False
    define ov where "ov \<longleftrightarrow> 2 ^ 63 - 1 < min k (K - k)
           \<or> (n - k \<le> N - K \<and> 2 ^ 63 - 1 < min (n - k) (N - K - (n - k)))
           \<or> 2 ^ 63 - 1 < min n (N - n)"
    from valid False have v: "K \<le> N" "n \<le> N" "1 \<le> N" "0 \<le> k" "k \<le> n" "k \<le> K"
      by simp_all
    from pmf_cases[OF v, folded ov_def]
    have c: "if ov then hypergeometric_pmf N K n k = Inl OverflowError
             else \<exists>r. hypergeometric_pmf N K n k = Inr r"
      by (cases ov) auto
    have small: "N < 2 ^ 64 \<Longrightarrow> \<not> ov"
      unfolding ov_def using v by (intro pmf_small_population) simp_all
    have 1: "hypergeometric_pmf N K n k = Inl e \<longleftrightarrow> e = OverflowError \<and> ov"
      using c by (cases ov) auto
    have 2: "N < 2 ^ 64 \<longrightarrow> hypergeometric_pmf N K n k \<noteq> Inl e"
      using 1 small by simp
    from 1 2 valid v show ?thesis unfolding ov_def by simp
  qed
qed

theorem hypergeometric_pmf_raises_cases_witness:
  "hypergeometric_pmf 5 6 2 1 = Inl InvalidParameters
   \<and> hypergeometric_pmf 10 5 2 2 \<noteq> Inl InvalidParameters
   \<and> hypergeometric_pmf 10 5 2 2 \<noteq> Inl OverflowError
   \<and> hypergeometric_pmf (2 ^ 65) (2 ^ 64) (2 ^ 64) (2 ^ 63) = Inl OverflowError"
  using hypergeometric_pmf_raises_cases[of 5 6 2 1 InvalidParameters]
        hypergeometric_pmf_raises_cases[of 10 5 2 2 InvalidParameters]
        hypergeometric_pmf_raises_cases[of 10 5 2 2 OverflowError]
        hypergeometric_pmf_raises_cases[of "2 ^ 65" "2 ^ 64" "2 ^ 64" "2 ^ 63" OverflowError]
  by simp

text \<open>
  Claim C6.  On valid parameters and \<open>0 \<le> targetSuccesses \<le> min draws successes\<close>, every
  result the pmf returns is a triple whose numerator and denominator are coprime, with
  denominator at least 1, and whose quotient is the hypergeometric probability
  \<open>C(K, k) * C(N - K, n - k) / C(N, n)\<close> as an exact rational.  The pmf does return on
  such an input whenever the population is below \<open>2\<^sup>6\<^sup>4\<close>.
\<close>

theorem hypergeometric_pmf_reduced_fraction:
  assumes "K \<le> N" and "n \<le> N" and "1 \<le> N" and "0 \<le> k" and "k \<le> min n K"
  shows "(N < 2 ^ 64 \<longrightarrow> (\<exists>r. hypergeometric_pmf N K n k = Inr r))
       \<and> (\<forall>r. hypergeometric_pmf N K n k = Inr r \<longrightarrow>
            (\<exists>p num den. r = Triple p num den
               \<and> gcd num den = 1 \<and> 0 \<le> num \<and> 1 \<le> den
               \<and> (of_int num / of_int den :: rat)
                   = of_nat (nat K choose nat k) * of_nat (nat (N - K) choose nat (n - k))
                       / of_nat (nat N choose nat n)))"
proof -
  define a where "a = int (nat K choose nat k) * int (nat (N - K) choose nat (n - k))"
  define b where "b = int (nat N choose nat n)"
  let ?ov = "2 ^ 63 - 1 < min k (K - k)
           \<or> (n - k \<le> N - K \<and> 2 ^ 63 - 1 < min (n - k) (N - K - (n - k)))
           \<or> 2 ^ 63 - 1 < min n (N - n)"
  from assms pmf_cases[of K N n k] have
    b: "0 < b" and c: "if ?ov then hypergeometric_pmf N K n k = Inl OverflowError
       else \<exists>p. hypergeometric_pmf N K n k = Inr (Triple p (a div gcd a b) (b div gcd a b))"
    by (simp_all add: a_def b_def)
  have a: "0 \<le> a" by (simp add: a_def)
  have g: "0 < gcd a b" using b by (simp add: gcd_pos_int)
  have cop: "gcd (a div gcd a b) (b div gcd a b) = 1"
    using b div_gcd_coprime[of a b] by (simp add: coprime_iff_gcd_eq_1)
  have num: "0 \<le> a div gcd a b" using a g by (simp add: pos_imp_zdiv_nonneg_iff)
  have "gcd a b \<le> b" using b by (simp add: gcd_le2_int)
  then have den: "1 \<le> b div gcd a b" using g
    using pos_imp_zdiv_pos_iff[of "gcd a b" b] by simp
  have "(of_int (a div gcd a b) / of_int (b div gcd a b) :: rat) = of_int a / of_int b"
  proof -
    have "(of_int (a div gcd a b) :: rat) = of_int a / of_int (gcd a b)"
      by (simp add: of_int_div)
    moreover have "(of_int (b div gcd a b) :: rat) = of_int b / of_int (gcd a b)"
      by (simp add: of_int_div)
    ultimately show ?thesis using g by simp
  qed
  also have "\<dots> = of_nat (nat K choose nat k) * of_nat (nat (N - K) choose nat (n - k))
                   / of_nat (nat N choose nat n)"
    by (simp add: a_def b_def)
  finally have e: "(of_int (a div gcd a b) / of_int (b div gcd a b) :: rat)
      = of_nat (nat K choose nat k) * of_nat (nat (N - K) choose nat (n - k))
          / of_nat (nat N choose nat n)" .
  have small: "N < 2 ^ 64 \<Longrightarrow> \<not> ?ov"
    using assms by (intro pmf_small_population) simp_all
  have ret: "N < 2 ^ 64 \<longrightarrow> (\<exists>r. hypergeometric_pmf N K n k = Inr r)"
  proof
    assume "N < 2 ^ 64"
    from small[OF this] c show "\<exists>r. hypergeometric_pmf N K n k = Inr r" by auto
  qed
  have frac: "\<forall>r. hypergeometric_pmf N K n k = Inr r \<longrightarrow>
            (\<exists>p num den. r = Triple p num den
               \<and> gcd num den = 1 \<and> 0 \<le> num \<and> 1 \<le> den
               \<and> (of_int num / of_int den :: rat)
                   = of_nat (nat K choose nat k) * of_nat (nat (N - K) choose nat (n - k))
                       / of_nat (nat N choose nat n))"
  proof (intro allI impI)
    fix r assume r: "hypergeometric_pmf N K n k = Inr r"
    with c obtain p where p: "r = Triple p (a div gcd a b) (b div gcd a b)"
      by (auto split: if_splits)
    show "\<exists>p num den. r = Triple p num den
               \<and> gcd num den = 1 \<and> 0 \<le> num \<and> 1 \<le> den
               \<and> (of_int num / of_int den :: rat)
                   = of_nat (nat K choose nat k) * of_nat (nat (N - K) choose nat (n - k))
                       / of_nat (nat N choose nat n)"
      by (rule exI[of _ p], rule exI[of _ "a div gcd a b"], rule exI[of _ "b div gcd a b"])
         (intro conjI p cop num den e)
  qed
  from ret frac show ?thesis by (rule conjI)
qed

theorem hypergeometric_pmf_reduced_fraction_witness:
  "\<exists>p num den. hypergeometric_pmf 10 5 2 2 = Inr (Triple p num den)
           \<and> gcd num den = 1 \<and> 0 \<le> num \<and> 1 \<le> den
           \<and> (of_int num / of_int den :: rat) = 10 * 1 / 45"
proof -
  have c: "(5::nat) choose 2 = 10" "(10::nat) choose 2 = 45" by code_simp+
  from hypergeometric_pmf_reduced_fraction[of 5 10 2 2]
  have r: "\<exists>r. hypergeometric_pmf 10 5 2 2 = Inr r"
    and f: "\<forall>r. hypergeometric_pmf 10 5 2 2 = Inr r \<longrightarrow>
            (\<exists>p num den. r = Triple p num den
               \<and> gcd num den = 1 \<and> 0 \<le> num \<and> 1 \<le> den
               \<and> (of_int num / of_int den :: rat) = 10 * 1 / 45)"
    using c by simp_all
  from r obtain r where r: "hypergeometric_pmf 10 5 2 2 = Inr r" ..
  with f show ?thesis by simp
qed

lemma nonzero_thresholds_Nil: "nonzero_thresholds num den [] = []"
  by (simp add: nonzero_thresholds_def)

lemma nonzero_thresholds_Cons:
  "nonzero_thresholds num den (dice # cs) =
     (case validate_distro num den dice of
        Inr (Some t) \<Rightarrow> if t \<noteq> 0 then [(dice, t)] else []
      | _ \<Rightarrow> []) @ nonzero_thresholds num den cs"
  by (simp add: nonzero_thresholds_def)

lemma collect_solutions_Inr:
  "collect_solutions num den cs acc = Inr sols \<Longrightarrow>
     sols = acc @ nonzero_thresholds num den cs"
proof (induction cs arbitrary: acc)
  case Nil
  then show ?case by (simp add: nonzero_thresholds_Nil)
next
  case (Cons dice cs)
  show ?case
  proof (cases "validate_distro num den dice")
    case (Inl e)
    with Cons.prems show ?thesis by simp
  next
    case (Inr threshold)
    show ?thesis
    proof (cases threshold)
      case None
      with Inr Cons.prems have "collect_solutions num den cs acc = Inr sols" by simp
      from Cons.IH[OF this] Inr None show ?thesis
        by (simp add: nonzero_thresholds_Cons)
    next
      case (Some t)
      show ?thesis
      proof (cases "t = 0")
        case True
        with Inr Some Cons.prems have "collect_solutions num den cs acc = Inr sols" by simp
        from Cons.IH[OF this] Inr Some True show ?thesis
          by (simp add: nonzero_thresholds_Cons)
      next
        case False
        with Inr Some Cons.prems
        have "collect_solutions num den cs (acc @ [(dice, t)]) = Inr sols" by simp
        from Cons.IH[OF this] Inr Some False show ?thesis
          by (simp add: nonzero_thresholds_Cons)
      qed
    qed
  qed
qed

lemma collect_solutions_Inl:
  "collect_solutions num den cs acc = Inl e \<Longrightarrow>
     \<exists>dice\<in>set cs. validate_distro num den dice = Inl e"
proof (induction cs arbitrary: acc)
  case Nil
  then show ?case by simp
next
  case (Cons dice cs)
  show ?case
  proof (cases "validate_distro num den dice")
    case (Inl e')
    with Cons.prems show ?thesis by simp
  next
    case (Inr threshold)
    with Cons.prems obtain acc' where "collect_solutions num den cs acc' = Inl e" by simp
    from Cons.IH[OF this] show ?thesis by auto
  qed
qed

lemma set_nonzero_thresholds:
  "set (nonzero_thresholds num den cs) =
     {(dice, t). dice \<in> set cs \<and> validate_distro num den dice = Inr (Some t) \<and> t \<noteq> 0}"
proof (induction cs)
  case Nil
  then show ?case by (simp add: nonzero_thresholds_Nil)
next
  case (Cons dice cs)
  show ?case
    unfolding nonzero_thresholds_Cons set_append Cons.IH
    by (cases "validate_distro num den dice") (auto split: option.splits)
qed

lemma length_combinations_with_replacement:
  "xs \<in> set (combinations_with_replacement pool r) \<Longrightarrow> length xs = r"
  by (induction pool r arbitrary: xs rule: combinations_with_replacement.induct) auto

lemma set_combinations_with_replacement:
  "sorted pool \<Longrightarrow>
     set (combinations_with_replacement pool r) =
       {xs. length xs = r \<and> sorted xs \<and> set xs \<subseteq> set pool}"
proof (induction pool r rule: combinations_with_replacement.induct)
  case (1 pool)
  then show ?case by auto
next
  case (2 r)
  then show ?case by auto
next
  case (3 x pool r)
  from "3.prems" have sp: "sorted pool" and xmin: "\<forall>y\<in>set pool. x \<le> y" by auto
  have ih1: "set (combinations_with_replacement (x # pool) r) =
      {xs. length xs = r \<and> sorted xs \<and> set xs \<subseteq> set (x # pool)}"
    using "3.IH"(1) "3.prems" by blast
  have ih2: "set (combinations_with_replacement pool (Suc r)) =
      {xs. length xs = Suc r \<and> sorted xs \<and> set xs \<subseteq> set pool}"
    using "3.IH"(2) sp by blast
  have split: "set (combinations_with_replacement (x # pool) (Suc r)) =
      (#) x ` set (combinations_with_replacement (x # pool) r)
      \<union> set (combinations_with_replacement pool (Suc r))" by simp
  show ?case
  proof (intro set_eqI iffI)
    fix ys assume "ys \<in> set (combinations_with_replacement (x # pool) (Suc r))"
    then consider xs where "ys = x # xs" "xs \<in> set (combinations_with_replacement (x # pool) r)"
      | "ys \<in> set (combinations_with_replacement pool (Suc r))"
      unfolding split by blast
    then show "ys \<in> {xs. length xs = Suc r \<and> sorted xs \<and> set xs \<subseteq> set (x # pool)}"
    proof cases
      case 1
      from 1(2) have "length xs = r" "sorted xs" "set xs \<subseteq> set (x # pool)"
        unfolding ih1 by simp_all
      moreover from this xmin have "\<forall>y\<in>set xs. x \<le> y" by auto
      ultimately show ?thesis using 1(1) by simp
    next
      case 2
      then have "length ys = Suc r" "sorted ys" "set ys \<subseteq> set pool"
        unfolding ih2 by simp_all
      then show ?thesis by auto
    qed
  next
    fix ys assume "ys \<in> {xs. length xs = Suc r \<and> sorted xs \<and> set xs \<subseteq> set (x # pool)}"
    then have l: "length ys = Suc r" and s: "sorted ys" and sub: "set ys \<subseteq> set (x # pool)"
      by simp_all
    from l obtain y ys' where ys: "ys = y # ys'" by (cases ys) simp_all
    show "ys \<in> set (combinations_with_replacement (x # pool) (Suc r))"
    proof (cases "x \<in> set ys")
      case True
      with s ys have "y \<le> x" by auto
      moreover from sub ys xmin have "x \<le> y" by auto
      ultimately have yx: "y = x" by simp
      from ys l s sub have "length ys' = r" "sorted ys'" "set ys' \<subseteq> set (x # pool)" by simp_all
      then have "ys' \<in> set (combinations_with_replacement (x # pool) r)"
        unfolding ih1 by simp
      with yx ys show ?thesis unfolding split by blast
    next
      case False
      with sub have "set ys \<subseteq> set pool" by auto
      with l s have "ys \<in> set (combinations_with_replacement pool (Suc r))"
        unfolding ih2 by simp
      then show ?thesis unfolding split by blast
    qed
  qed
qed

declare find_dice_loop.simps [simp del]
declare find_dice_loop_st.simps [simp del]

lemma find_dice_loop_stop:
  "\<not> (N \<le> limit \<and> solutions = []) \<Longrightarrow>
     find_dice_loop num den ds limit N solutions = Inr solutions"
  by (subst find_dice_loop.simps) auto

lemma find_dice_loop_step:
  "N \<le> limit \<Longrightarrow>
     find_dice_loop num den ds limit N [] =
       (case collect_solutions num den (combinations_with_replacement ds (nat N)) [] of
          Inl e \<Rightarrow> Inl e
        | Inr solutions' \<Rightarrow> find_dice_loop num den ds limit (N + 1) solutions')"
  by (subst find_dice_loop.simps) simp

lemma find_dice_loop_Inr:
  assumes "find_dice_loop num den ds limit N [] = Inr sols"
  shows "(sols = [] \<and> (\<forall>M\<in>{N..limit}.
              nonzero_thresholds num den (combinations_with_replacement ds (nat M)) = []))
       \<or> (\<exists>M\<in>{N..limit}. sols \<noteq> []
              \<and> sols = nonzero_thresholds num den (combinations_with_replacement ds (nat M))
              \<and> (\<forall>M'\<in>{N..<M}.
                   nonzero_thresholds num den (combinations_with_replacement ds (nat M')) = []))"
  using assms
proof (induction "nat (limit + 1 - N)" arbitrary: N)
  case 0
  then have nle: "\<not> N \<le> limit" by simp
  with "0.prems" have "sols = []" by (simp add: find_dice_loop_stop)
  with nle show ?case by simp
next
  case (Suc k)
  then have le: "N \<le> limit" by simp
  let ?c = "combinations_with_replacement ds (nat N)"
  from Suc.prems le obtain s' where c: "collect_solutions num den ?c [] = Inr s'"
    and r: "find_dice_loop num den ds limit (N + 1) s' = Inr sols"
    by (cases "collect_solutions num den ?c []") (simp_all add: find_dice_loop_step)
  from collect_solutions_Inr[OF c] have s': "s' = nonzero_thresholds num den ?c" by simp
  show ?case
  proof (cases "s' = []")
    case True
    have k: "k = nat (limit + 1 - (N + 1))" using Suc.hyps(2) by simp
    from r True have r0: "find_dice_loop num den ds limit (N + 1) [] = Inr sols" by simp
    from Suc.hyps(1)[OF k r0]
    consider "sols = []" "\<forall>M\<in>{N + 1..limit}.
              nonzero_thresholds num den (combinations_with_replacement ds (nat M)) = []"
      | M where "M \<in> {N + 1..limit}" "sols \<noteq> []"
          "sols = nonzero_thresholds num den (combinations_with_replacement ds (nat M))"
          "\<forall>M'\<in>{N + 1..<M}.
                   nonzero_thresholds num den (combinations_with_replacement ds (nat M')) = []"
      by blast
    then show ?thesis
    proof cases
      case 1
      have "\<forall>M\<in>{N..limit}. nonzero_thresholds num den (combinations_with_replacement ds (nat M)) = []"
      proof
        fix M assume "M \<in> {N..limit}"
        then have "M = N \<or> M \<in> {N + 1..limit}" by auto
        then show "nonzero_thresholds num den (combinations_with_replacement ds (nat M)) = []"
          using 1(2) s' True by blast
      qed
      with 1(1) show ?thesis by blast
    next
      case 2
      have "\<forall>M'\<in>{N..<M}. nonzero_thresholds num den (combinations_with_replacement ds (nat M')) = []"
      proof
        fix M' assume "M' \<in> {N..<M}"
        then have "M' = N \<or> M' \<in> {N + 1..<M}" by auto
        then show "nonzero_thresholds num den (combinations_with_replacement ds (nat M')) = []"
          using 2(4) s' True by blast
      qed
      moreover from 2(1) have "M \<in> {N..limit}" by simp
      ultimately show ?thesis using 2(2,3) by blast
    qed
  next
    case False
    with r have "sols = s'" by (simp add: find_dice_loop_stop)
    moreover have "N \<in> {N..limit}" "{N..<N} = {}" using le by simp_all
    ultimately show ?thesis using False s' by blast
  qed
qed

lemma find_dice_loop_Inl:
  assumes "find_dice_loop num den ds limit N [] = Inl e"
  shows "\<exists>M\<in>{N..limit}. \<exists>dice\<in>set (combinations_with_replacement ds (nat M)).
           validate_distro num den dice = Inl e"
  using assms
proof (induction "nat (limit + 1 - N)" arbitrary: N)
  case 0
  then have "\<not> N \<le> limit" by simp
  with "0.prems" show ?case by (simp add: find_dice_loop_stop)
next
  case (Suc k)
  then have le: "N \<le> limit" by simp
  let ?c = "combinations_with_replacement ds (nat N)"
  show ?case
  proof (cases "collect_solutions num den ?c []")
    case (Inl e')
    with Suc.prems le have "e' = e" by (simp add: find_dice_loop_step)
    with Inl have "\<exists>dice\<in>set ?c. validate_distro num den dice = Inl e"
      using collect_solutions_Inl by blast
    moreover have "N \<in> {N..limit}" using le by simp
    ultimately show ?thesis by blast
  next
    case (Inr s')
    with Suc.prems le have r: "find_dice_loop num den ds limit (N + 1) s' = Inl e"
      by (simp add: find_dice_loop_step)
    have "s' = []"
    proof (rule ccontr)
      assume "s' \<noteq> []"
      with r show False by (simp add: find_dice_loop_stop)
    qed
    have k: "k = nat (limit + 1 - (N + 1))" using Suc.hyps(2) by simp
    from r \<open>s' = []\<close> have r0: "find_dice_loop num den ds limit (N + 1) [] = Inl e" by simp
    from Suc.hyps(1)[OF k r0]
    obtain M where M: "M \<in> {N + 1..limit}"
      "\<exists>dice\<in>set (combinations_with_replacement ds (nat M)). validate_distro num den dice = Inl e"
      by blast
    from M(1) have "M \<in> {N..limit}" by simp
    with M(2) show ?thesis by blast
  qed
qed

lemma no_nonzero_thresholds:
  assumes "nonzero_thresholds num den cs = []"
  shows "\<forall>dice\<in>set cs. \<forall>t. validate_distro num den dice = Inr (Some t) \<longrightarrow> t = 0"
proof (intro ballI allI impI)
  fix dice t assume d: "dice \<in> set cs" and v: "validate_distro num den dice = Inr (Some t)"
  show "t = 0"
  proof (rule ccontr)
    assume "t \<noteq> 0"
    with d v have "(dice, t) \<in> set (nonzero_thresholds num den cs)"
      unfolding set_nonzero_thresholds by simp
    with assms show False by simp
  qed
qed

text \<open>
  Claim C1.  \<open>find_dice\<close> tries the sizes \<open>N = 1, 2, \<dots>, limit\<close> in order.  When it returns,
  its list is either empty, and then no selection of any size from 1 to \<open>limit\<close> yields a
  threshold other than 0; or it is exactly the list of the selections of one size \<open>N\<close> that
  yield a non-zero threshold, each with its threshold: every such selection of that size is
  in it (for a sorted die set these are the non-decreasing sequences of \<open>N\<close> faces of the
  set), every returned combination has length \<open>N\<close>, and no smaller size has a solution.
  The function raises only when a call of the threshold locator on one of the selections of
  a size from 1 to \<open>limit\<close> raises.
\<close>

theorem find_dice_smallest_size:
  "case find_dice p num den ds limit of
     Inl e \<Rightarrow>
       \<exists>N\<in>{1..limit}. \<exists>dice\<in>set (combinations_with_replacement ds (nat N)).
          validate_distro num den dice = Inl e
   | Inr sols \<Rightarrow>
       (sols = [] \<and>
          (\<forall>N\<in>{1..limit}. \<forall>dice\<in>set (combinations_with_replacement ds (nat N)).
             \<forall>t. validate_distro num den dice = Inr (Some t) \<longrightarrow> t = 0))
       \<or> (\<exists>N\<in>{1..limit}. sols \<noteq> []
            \<and> sols = nonzero_thresholds num den (combinations_with_replacement ds (nat N))
            \<and> set sols = {(dice, t). dice \<in> set (combinations_with_replacement ds (nat N))
                            \<and> validate_distro num den dice = Inr (Some t) \<and> t \<noteq> 0}
            \<and> (sorted ds \<longrightarrow>
                 set sols = {(dice, t). length dice = nat N \<and> sorted dice
                              \<and> set dice \<subseteq> set ds
                              \<and> validate_distro num den dice = Inr (Some t) \<and> t \<noteq> 0})
            \<and> (\<forall>s\<in>set sols. length (fst s) = nat N)
            \<and> (\<forall>M\<in>{1..<N}. \<forall>dice\<in>set (combinations_with_replacement ds (nat M)).
                 \<forall>t. validate_distro num den dice = Inr (Some t) \<longrightarrow> t = 0))"
proof (cases "find_dice p num den ds limit")
  case (Inl e)
  then have "find_dice_loop num den ds limit 1 [] = Inl e" by (simp add: find_dice_def)
  from find_dice_loop_Inl[OF this] Inl show ?thesis by simp
next
  case (Inr sols)
  then have l: "find_dice_loop num den ds limit 1 [] = Inr sols" by (simp add: find_dice_def)
  from find_dice_loop_Inr[OF l]
  consider "sols = []" "\<forall>M\<in>{1..limit}.
              nonzero_thresholds num den (combinations_with_replacement ds (nat M)) = []"
    | N where "N \<in> {1..limit}" "sols \<noteq> []"
        "sols = nonzero_thresholds num den (combinations_with_replacement ds (nat N))"
        "\<forall>M'\<in>{1..<N}.
           nonzero_thresholds num den (combinations_with_replacement ds (nat M')) = []"
    by blast
  then have "(sols = [] \<and>
          (\<forall>N\<in>{1..limit}. \<forall>dice\<in>set (combinations_with_replacement ds (nat N)).
             \<forall>t. validate_distro num den dice = Inr (Some t) \<longrightarrow> t = 0))
       \<or> (\<exists>N\<in>{1..limit}. sols \<noteq> []
            \<and> sols = nonzero_thresholds num den (combinations_with_replacement ds (nat N))
            \<and> set sols = {(dice, t). dice \<in> set (combinations_with_replacement ds (nat N))
                            \<and> validate_distro num den dice = Inr (Some t) \<and> t \<noteq> 0}
            \<and> (sorted ds \<longrightarrow>
                 set sols = {(dice, t). length dice = nat N \<and> sorted dice
                              \<and> set dice \<subseteq> set ds
                              \<and> validate_distro num den dice = Inr (Some t) \<and> t \<noteq> 0})
            \<and> (\<forall>s\<in>set sols. length (fst s) = nat N)
            \<and> (\<forall>M\<in>{1..<N}. \<forall>dice\<in>set (combinations_with_replacement ds (nat M)).
                 \<forall>t. validate_distro num den dice = Inr (Some t) \<longrightarrow> t = 0))"
  proof cases
    case 1
    from 1(2) have "\<forall>N\<in>{1..limit}. \<forall>dice\<in>set (combinations_with_replacement ds (nat N)).
             \<forall>t. validate_distro num den dice = Inr (Some t) \<longrightarrow> t = 0"
      using no_nonzero_thresholds by blast
    with 1(1) show ?thesis by blast
  next
    case 2
    let ?c = "combinations_with_replacement ds (nat N)"
    have a: "set sols = {(dice, t). dice \<in> set ?c
                            \<and> validate_distro num den dice = Inr (Some t) \<and> t \<noteq> 0}"
      unfolding 2(3) set_nonzero_thresholds ..
    have b: "sorted ds \<longrightarrow>
                 set sols = {(dice, t). length dice = nat N \<and> sorted dice
                              \<and> set dice \<subseteq> set ds
                              \<and> validate_distro num den dice = Inr (Some t) \<and> t \<noteq> 0}"
    proof
      assume "sorted ds"
      from set_combinations_with_replacement[OF this, of "nat N"]
      have "\<And>dice. dice \<in> set ?c \<longleftrightarrow>
               length dice = nat N \<and> sorted dice \<and> set dice \<subseteq> set ds" by simp
      then show "set sols = {(dice, t). length dice = nat N \<and> sorted dice
                              \<and> set dice \<subseteq> set ds
                              \<and> validate_distro num den dice = Inr (Some t) \<and> t \<noteq> 0}"
        unfolding a by simp
    qed
    have c: "\<forall>s\<in>set sols. length (fst s) = nat N"
    proof
      fix s assume "s \<in> set sols"
      then have "fst s \<in> set ?c" unfolding a by (cases s) simp
      then show "length (fst s) = nat N" by (rule length_combinations_with_replacement)
    qed
    from 2(4) have d: "\<forall>M\<in>{1..<N}. \<forall>dice\<in>set (combinations_with_replacement ds (nat M)).
                 \<forall>t. validate_distro num den dice = Inr (Some t) \<longrightarrow> t = 0"
      using no_nonzero_thresholds by blast
    from 2(1,2,3) a b c d show ?thesis by blast
  qed
  with Inr show ?thesis by simp
qed

theorem find_dice_smallest_size_witness:
  "find_dice () 1 2 [2] 5 = Inr [([2], 2)]
   \<and> (\<exists>N\<in>{1..5}. [([2], 2)]
          = nonzero_thresholds 1 2 (combinations_with_replacement [2] (nat N))
        \<and> (\<forall>s\<in>set [([2], 2 :: int)]. length (fst s) = nat N))"
proof -
  have e: "find_dice () 1 2 [2] 5 = Inr [([2], 2)]" by code_simp
  from find_dice_smallest_size[where p = "()" and num = 1 and den = 2
      and ds = "[2]" and limit = 5]
  have "\<exists>N\<in>{1..5}. [([2], 2)]
          = nonzero_thresholds 1 2 (combinations_with_replacement [2] (nat N))
        \<and> (\<forall>s\<in>set [([2], 2 :: int)]. length (fst s) = nat N)"
    unfolding e by simp blast
  with e show ?thesis by simp
qed

lemma find_dice_loop_st_eq:
  "find_dice_loop_st h num den r limit N sols
     = (find_dice_loop num den (h r) limit N sols, h)"
proof (induction h num den r limit N sols rule: find_dice_loop_st.induct)
  case (1 h num den r limit N sols)
  show ?case
  proof (cases "N \<le> limit \<and> sols = []")
    case False
    then show ?thesis
      by (subst find_dice_loop_st.simps, subst find_dice_loop.simps) auto
  next
    case True
    show ?thesis
    proof (cases "collect_solutions num den (combinations_with_replacement (h r) (nat N)) sols")
      case (Inl e)
      with True show ?thesis
        by (subst find_dice_loop_st.simps, subst find_dice_loop.simps) simp
    next
      case (Inr s')
      from "1.IH"[OF True refl Inr]
      have "find_dice_loop_st h num den r limit (N + 1) s'
              = (find_dice_loop num den (h r) limit (N + 1) s', h)" .
      with True Inr show ?thesis
        by (subst find_dice_loop_st.simps, subst find_dice_loop.simps) simp
    qed
  qed
qed

text \<open>
  Claim C10.  A call of \<open>find_dice\<close> leaves the store as it found it, in particular the list
  object passed as \<open>dice_set\<close> and the module's default list; its result is a function of
  the contents of that list, so a second call on the store left by the first returns the
  same result.
\<close>

theorem find_dice_st_frame:
  "snd (find_dice_st h p num den dice_set limit) = h
   \<and> fst (find_dice_st h p num den dice_set limit)
       = find_dice p num den
           (h (case dice_set of None \<Rightarrow> RPG_DICE_SET_ref | Some r \<Rightarrow> r)) limit
   \<and> find_dice_st (snd (find_dice_st h p num den dice_set limit)) p num den dice_set limit
       = find_dice_st h p num den dice_set limit"
  by (simp add: find_dice_st_def find_dice_def find_dice_loop_st_eq)

text \<open>
  Claim C8.  \<open>validate_distro 1 6 [6, 6]\<close> returns the threshold 10: the distribution of the
  sum of two six-sided dice starts, from the top, with counts 1, 2, 3 for the sums 12, 11, 10,
  and the target count is \<open>1 * 36 / 6 = 6\<close>.
\<close>

theorem validate_distro_two_d6:
  "validate_distro 1 6 [6, 6] = Inr (Some 10)
   \<and> take 3 (distro_of [6, 6]) = [(12, 1), (11, 2), (10, 3)]
   \<and> target_cases_of 1 (num_cases_of [6, 6]) 6 = Inr (Finite 6)"
  by code_simp

text \<open>
  Claim C2 says that the threshold locator returns an integer for every numerator \<open>\<ge> 0\<close> and
  denominator \<open>\<ge> 1\<close>, 0 when no threshold exists.  For the fraction \<open>2/1\<close> and one two-sided
  die the target count 4 exceeds the 2 outcomes: the scan uses up the distribution without
  reaching it, and the function ends without a \<^verbatim>\<open>return\<close>: the result is \<^verbatim>\<open>None\<close>.
\<close>

theorem validate_distro_falls_through:
  "validate_distro 2 1 [2] = Inr None"
  by code_simp

text \<open>
  Claim C3 says that the pmf returns a triple also for an impossible \<open>targetSuccesses\<close>.  For
  3 successes in 2 draws (population 10 with 5 successes) the code returns the bare float
  \<^verbatim>\<open>0.0\<close>, not a triple.
\<close>

theorem hypergeometric_pmf_bare_zero:
  "hypergeometric_pmf 10 5 2 3 = Inr (Bare (Finite 0))"
  by code_simp

text \<open>
  Claim C4 says that the cdf raises only on an unknown relation.  With the relation
  \<^verbatim>\<open>"eq"\<close> and 3 successes in 2 draws, the pmf returns the bare float \<^verbatim>\<open>0.0\<close>, which
  the cdf subscripts: a \<^verbatim>\<open>TypeError\<close>.
\<close>

theorem hypergeometric_cdf_type_error:
  "hypergeometric_cdf 10 5 2 3 ''eq'' = Inl TypeError"
  by code_simp

text \<open>
  Claim C5 says that the target count is the exact integer
  \<open>numerator * totalOutcomes / denominator\<close>.  The code computes it with the float division
  \<^verbatim>\<open>/\<close>: for the fraction \<open>1/1\<close> and 34 three-sided dice the exact count is
  \<open>3 ^ 34 = 16677181699666569\<close>, and the float the scan compares with is \<open>16677181699666568\<close>.
\<close>

theorem target_cases_rounded:
  "target_cases_of 1 (num_cases_of (replicate 34 3)) 1 = Inr (Finite 16677181699666568)
   \<and> 1 * num_cases_of (replicate 34 3) div 1 = 16677181699666569"
  by code_simp

section \<open>The distribution and the scan\<close>

lemma elements_Nil [simp]: "elements [] = []"
  by (simp add: elements_def)

lemma elements_Cons [simp]: "elements ((k, c) # items) = replicate (nat c) k @ elements items"
  by (simp add: elements_def)

lemma elements_append [simp]: "elements (xs @ ys) = elements xs @ elements ys"
  by (simp add: elements_def)

lemma set_elements_subset: "set (elements items) \<subseteq> fst ` set items"
  by (induction items) auto

lemma set_elements_pos:
  "\<forall>(k, c)\<in>set items. 0 < c \<Longrightarrow> set (elements items) = fst ` set items"
proof (induction items)
  case Nil
  then show ?case by simp
next
  case (Cons a items)
  obtain k c where a: "a = (k, c)" by (cases a)
  from Cons.prems have "0 < c" "\<forall>(k, c)\<in>set items. 0 < c" by (simp_all add: a)
  with Cons.IH show ?case by (simp add: a)
qed

lemma sum_snd_elements:
  "\<forall>(k, c)\<in>set items. 0 < c \<Longrightarrow> sum_list (map snd items) = int (length (elements items))"
  by (induction items) auto

lemma counter_update_pos:
  "\<forall>(k, c)\<in>set items. 0 < c \<Longrightarrow> \<forall>(k, c)\<in>set (counter_update x items). 0 < c"
proof (induction items)
  case Nil
  then show ?case by simp
next
  case (Cons a items)
  obtain k c where a: "a = (k, c)" by (cases a)
  from Cons.prems have "0 < c" "\<forall>(k, c)\<in>set items. 0 < c" by (simp_all add: a)
  with Cons.IH show ?case by (simp add: a)
qed

lemma fst_counter_update:
  "fst ` set (counter_update x items) = insert x (fst ` set items)"
proof (induction items)
  case Nil
  then show ?case by simp
next
  case (Cons a items)
  obtain k c where a: "a = (k, c)" by (cases a)
  from Cons.IH show ?case by (auto simp: a)
qed

lemma distinct_counter_update:
  "distinct (map fst items) \<Longrightarrow> distinct (map fst (counter_update x items))"
proof (induction items)
  case Nil
  then show ?case by simp
next
  case (Cons a items)
  obtain k c where a: "a = (k, c)" by (cases a)
  from Cons show ?case
    using fst_counter_update[of x items] by (auto simp: a)
qed

lemma mset_elements_counter_update:
  "\<forall>(k, c)\<in>set items. 0 < c \<Longrightarrow>
     mset (elements (counter_update x items)) = add_mset x (mset (elements items))"
proof (induction items)
  case Nil
  then show ?case by simp
next
  case (Cons a items)
  obtain k c where a: "a = (k, c)" by (cases a)
  from Cons.prems have c: "0 < c" by (simp add: a)
  then have n: "nat (c + 1) = Suc (nat c)" by simp
  from Cons show ?case by (simp add: a n)
qed

lemma fold_counter_update:
  "distinct (map fst acc) \<Longrightarrow> \<forall>(k, c)\<in>set acc. 0 < c \<Longrightarrow>
     distinct (map fst (fold counter_update xs acc))
     \<and> (\<forall>(k, c)\<in>set (fold counter_update xs acc). 0 < c)
     \<and> mset (elements (fold counter_update xs acc)) = mset xs + mset (elements acc)"
proof (induction xs arbitrary: acc)
  case Nil
  then show ?case by simp
next
  case (Cons x xs)
  have d: "distinct (map fst (counter_update x acc))"
    using Cons.prems(1) by (rule distinct_counter_update)
  have p: "\<forall>(k, c)\<in>set (counter_update x acc). 0 < c"
    using Cons.prems(2) by (rule counter_update_pos)
  from Cons.IH[OF d p] mset_elements_counter_update[OF Cons.prems(2), of x]
  show ?case by simp
qed

lemma Counter_props:
  "distinct (map fst (Counter xs))"
  "\<forall>(k, c)\<in>set (Counter xs). 0 < c"
  "mset (elements (Counter xs)) = mset xs"
  using fold_counter_update[of "[]" xs] by (simp_all add: Counter_def)

lemma mset_elements:
  "mset (elements items)
     = (\<Sum>kc\<in>#mset items. replicate_mset (nat (snd kc)) (fst kc))"
  by (induction items) auto

lemma sorted_reverse_props:
  assumes "distinct (map fst items)" "\<forall>(k, c)\<in>set items. 0 < c"
  shows "sorted_wrt (\<lambda>x y. y < x) (map fst (sorted_reverse items))"
    and "\<forall>(k, c)\<in>set (sorted_reverse items). 0 < c"
    and "mset (elements (sorted_reverse items)) = mset (elements items)"
proof -
  have "sorted (sort items)" by simp
  then have "sorted_wrt (\<lambda>x y. fst x \<le> fst y) (sort items)"
    by (rule sorted_wrt_mono_rel[rotated]) (auto simp: less_eq_prod_def)
  then have s: "sorted (map fst (sort items))" by (simp add: sorted_wrt_map)
  have "mset (map fst (sort items)) = mset (map fst items)" by simp
  with assms(1) have d: "distinct (map fst (sort items))"
    using mset_eq_imp_distinct_iff by blast
  from s d have "sorted_wrt (<) (map fst (sort items))"
    by (simp add: strict_sorted_iff)
  then show "sorted_wrt (\<lambda>x y. y < x) (map fst (sorted_reverse items))"
    by (simp add: sorted_reverse_def rev_map[symmetric] sorted_wrt_rev)
  show "\<forall>(k, c)\<in>set (sorted_reverse items). 0 < c"
    using assms(2) by (simp add: sorted_reverse_def)
  show "mset (elements (sorted_reverse items)) = mset (elements items)"
    by (simp add: mset_elements sorted_reverse_def)
qed

lemma scan_distro_hit:
  assumes "\<forall>(k, c)\<in>set pre. 0 < c" "0 < f"
    and "of_int (cum + sum_list (map snd pre) + f) = T"
  shows "scan_distro (Finite T) cum (pre @ (t, f) # post) = Some t"
  using assms
proof (induction pre arbitrary: cum)
  case Nil
  then show ?case by simp
next
  case (Cons a pre)
  obtain k c where a: "a = (k, c)" by (cases a)
  from Cons.prems(1) have c: "0 < c" and p: "\<forall>(k, c)\<in>set pre. 0 < c" by (simp_all add: a)
  from p have "0 \<le> sum_list (map snd pre)" by (simp add: sum_snd_elements)
  with Cons.prems(2,3) have lt: "of_int (cum + c) < T" by (auto simp: a)
  from Cons.prems(3) have "of_int ((cum + c) + sum_list (map snd pre) + f) = T"
    by (simp add: a algebra_simps)
  from Cons.IH[OF p Cons.prems(2) this] lt show ?case by (simp add: a)
qed

lemma filter_elements_split:
  assumes "sorted_wrt (\<lambda>x y. y < x) (map fst (pre @ (t, f) # post))"
  shows "filter (\<lambda>s. t \<le> s) (elements (pre @ (t, f) # post)) = elements (pre @ [(t, f)])"
proof -
  from assms have 1: "\<forall>k\<in>fst ` set pre. t < k" and 2: "\<forall>k\<in>fst ` set post. k < t"
    by (auto simp: sorted_wrt_append)
  from 1 set_elements_subset[of pre] have "\<forall>s\<in>set (elements pre). t \<le> s" by fastforce
  then have a: "filter (\<lambda>s. t \<le> s) (elements pre) = elements pre" by simp
  from 2 set_elements_subset[of post] have "\<forall>s\<in>set (elements post). \<not> t \<le> s" by fastforce
  then have b: "filter (\<lambda>s. t \<le> s) (elements post) = []" by simp
  show ?thesis by (simp add: a b)
qed

lemma scan_distro_Counter:
  assumes "t \<in> set ss"
    and "of_int (int (length (filter (\<lambda>s. t \<le> s) ss))) = T"
  shows "scan_distro (Finite T) 0 (sorted_reverse (Counter ss)) = Some t"
proof -
  let ?d = "sorted_reverse (Counter ss)"
  note sp = sorted_reverse_props[OF Counter_props(1,2), of ss]
  have m: "mset (elements ?d) = mset ss" using sp(3) Counter_props(3) by simp
  then have "set (elements ?d) = set ss" by (rule mset_eq_setD)
  with assms(1) set_elements_pos[OF sp(2)] have "t \<in> fst ` set ?d" by simp
  then obtain f where "(t, f) \<in> set ?d" by auto
  then obtain pre post where d: "?d = pre @ (t, f) # post" by (auto simp: in_set_conv_decomp)
  from sp(2) d have pos: "\<forall>(k, c)\<in>set pre. 0 < c" "0 < f" by auto
  then have pos': "\<forall>(k, c)\<in>set (pre @ [(t, f)]). 0 < c" by auto
  have "sum_list (map snd pre) + f = sum_list (map snd (pre @ [(t, f)]))" by simp
  also have "\<dots> = int (length (elements (pre @ [(t, f)])))"
    using pos' by (rule sum_snd_elements)
  also have "elements (pre @ [(t, f)]) = filter (\<lambda>s. t \<le> s) (elements ?d)"
    using filter_elements_split[of pre t f post] sp(1) unfolding d by simp
  also have "length (filter (\<lambda>s. t \<le> s) (elements ?d))
               = size (filter_mset (\<lambda>s. t \<le> s) (mset (elements ?d)))"
    by (metis mset_filter size_mset)
  also have "\<dots> = length (filter (\<lambda>s. t \<le> s) ss)"
    unfolding m by (metis mset_filter size_mset)
  finally have "of_int (0 + sum_list (map snd pre) + f) = T" using assms(2) by simp
  from scan_distro_hit[OF pos this] show ?thesis unfolding d .
qed

lemma length_concat_map_Cons:
  "length (concat (map (\<lambda>x. map ((#) x) ps) pool)) = length pool * length ps"
  by (induction pool) auto

lemma length_itertools_product:
  "length (itertools_product pools) = prod_list (map length pools)"
  by (induction pools) (simp_all add: length_concat_map_Cons)

lemma set_itertools_product:
  "set (itertools_product pools) = {xs. list_all2 (\<lambda>x pool. x \<in> set pool) xs pools}"
proof (induction pools)
  case Nil
  then show ?case by auto
next
  case (Cons pool pools)
  then show ?case by (auto simp: list_all2_Cons2)
qed

lemma distinct_concat_map_Cons:
  "distinct pool \<Longrightarrow> distinct ps \<Longrightarrow> distinct (concat (map (\<lambda>x. map ((#) x) ps) pool))"
  by (induction pool) (auto simp: distinct_map inj_on_def)

lemma distinct_itertools_product:
  "\<forall>pool\<in>set pools. distinct pool \<Longrightarrow> distinct (itertools_product pools)"
  by (induction pools) (simp_all add: distinct_concat_map_Cons)

lemma list_all2_replicate_pool:
  "list_all2 (\<lambda>x pool. x \<in> set pool) xs (replicate n p) \<longleftrightarrow> length xs = n \<and> set xs \<subseteq> set p"
proof (induction n arbitrary: xs)
  case 0
  then show ?case by auto
next
  case (Suc n)
  show ?case
  proof (cases xs)
    case Nil
    then show ?thesis by simp
  next
    case (Cons z zs)
    with Suc.IH[of zs] show ?thesis by auto
  qed
qed

lemma prod_list_replicate_nat: "prod_list (replicate n (m::nat)) = m ^ n"
  by (induction n) simp_all

lemma set_rolls_of_replicate:
  "set (rolls_of (replicate n d)) = {xs. length xs = n \<and> (\<forall>x\<in>set xs. 1 \<le> x \<and> x \<le> d)}"
  by (auto simp: rolls_of_def set_itertools_product list_all2_replicate_pool)

lemma length_rolls_of_replicate:
  "length (rolls_of (replicate n d)) = nat d ^ n"
  by (simp add: rolls_of_def length_itertools_product prod_list_replicate_nat)

lemma distinct_rolls_of: "distinct (rolls_of dice)"
  by (simp add: rolls_of_def distinct_itertools_product)

lemma sum_list_ge_length:
  "\<forall>x\<in>set xs. (1::int) \<le> x \<Longrightarrow> int (length xs) \<le> sum_list xs"
  by (induction xs) auto

lemma sum_list_eq_length:
  "\<forall>x\<in>set xs. (1::int) \<le> x \<Longrightarrow> sum_list xs \<le> int (length xs) \<Longrightarrow>
     xs = replicate (length xs) 1"
proof (induction xs)
  case Nil
  then show ?case by simp
next
  case (Cons x xs)
  from Cons.prems(1) have x: "1 \<le> x" and xs: "\<forall>x\<in>set xs. 1 \<le> x" by simp_all
  from sum_list_ge_length[OF xs] Cons.prems(2) x
  have "x = 1" "sum_list xs \<le> int (length xs)" by simp_all
  with Cons.IH[OF xs] show ?case by simp
qed

lemma low_rolls_of_replicate:
  assumes "1 \<le> d"
  shows "{r. \<not> int n + 1 \<le> sum_list r} \<inter> set (rolls_of (replicate n d)) = {replicate n 1}"
proof (intro set_eqI iffI)
  fix r :: "int list"
  assume "r \<in> {r. \<not> int n + 1 \<le> sum_list r} \<inter> set (rolls_of (replicate n d))"
  then have s: "sum_list r \<le> int n" and l: "length r = n" and g: "\<forall>x\<in>set r. 1 \<le> x"
    by (auto simp: set_rolls_of_replicate)
  from sum_list_eq_length[OF g] s l show "r \<in> {replicate n 1}" by simp
next
  fix r :: "int list"
  assume "r \<in> {replicate n 1}"
  then have r: "r = replicate n 1" by simp
  have "sum_list (replicate n (1::int)) = int n" by (simp add: sum_list_replicate)
  with assms show "r \<in> {r. \<not> int n + 1 \<le> sum_list r} \<inter> set (rolls_of (replicate n d))"
    by (auto simp: r set_rolls_of_replicate)
qed

lemma count_high_rolls:
  assumes "1 \<le> d"
  shows "length (filter (\<lambda>r. int n + 1 \<le> sum_list r) (rolls_of (replicate n d)))
           = nat d ^ n - 1"
proof -
  let ?rs = "rolls_of (replicate n d)"
  have "length (filter (\<lambda>r. \<not> int n + 1 \<le> sum_list r) ?rs)
          = card ({r. \<not> int n + 1 \<le> sum_list r} \<inter> set ?rs)"
    using distinct_rolls_of by (rule distinct_length_filter)
  also have "\<dots> = 1" unfolding low_rolls_of_replicate[OF assms] by simp
  finally have "length (filter (\<lambda>r. \<not> int n + 1 \<le> sum_list r) ?rs) = 1" .
  with sum_length_filter_compl[of "\<lambda>r. int n + 1 \<le> sum_list r" ?rs]
  show ?thesis by (simp add: length_rolls_of_replicate)
qed

lemma second_sum_of_replicate:
  assumes "1 \<le> n" "2 \<le> d"
  shows "int n + 1 \<in> set (map sum_list (rolls_of (replicate n d)))"
proof -
  obtain m where n: "n = Suc m" using assms(1) by (cases n) simp_all
  let ?r = "2 # replicate m (1::int)"
  have "?r \<in> {xs. length xs = n \<and> (\<forall>x\<in>set xs. 1 \<le> x \<and> x \<le> d)}"
    using assms(2) by (auto simp: n)
  then have "?r \<in> set (rolls_of (replicate n d))"
    unfolding set_rolls_of_replicate .
  moreover have "sum_list ?r = int n + 1" by (simp add: n sum_list_replicate)
  ultimately show ?thesis by (metis image_eqI set_map)
qed

lemma validate_distro_hit:
  assumes "denominator \<noteq> 0" "num_cases_of dice mod denominator = 0"
    and "target_cases_of numerator (num_cases_of dice) denominator = Inr (Finite T)"
    and "t \<in> set (map sum_list (rolls_of dice))"
    and "of_int (int (length (filter (\<lambda>roll. t \<le> sum_list roll) (rolls_of dice)))) = T"
  shows "validate_distro numerator denominator dice = Inr (Some t)"
proof -
  have "filter (\<lambda>s. t \<le> s) (map sum_list (rolls_of dice))
          = map sum_list (filter (\<lambda>roll. t \<le> sum_list roll) (rolls_of dice))"
    by (simp add: filter_map o_def)
  with assms(5)
  have "of_int (int (length (filter (\<lambda>s. t \<le> s) (map sum_list (rolls_of dice))))) = T"
    by simp
  from scan_distro_Counter[OF assms(4) this] assms(1-3) show ?thesis
    by (simp add: validate_distro_def py_mod_def err_bind_def distro_of_def Let_def)
qed

lemma target_cases_34_d3:
  "target_cases_of 1 (num_cases_of (replicate 34 3)) 1 = Inr (Finite 16677181699666568)"
  by code_simp

lemma num_cases_34_d3: "num_cases_of (replicate 34 3) = 16677181699666569"
  by code_simp

text \<open>
  Claim C9 says that the number of outcomes at or above a returned threshold is
  \<open>numerator * totalOutcomes / denominator\<close> exactly.  For the fraction \<open>1/1\<close> and 34
  three-sided dice the target count of line 121 is the float \<open>16677181699666568\<close>; the
  scan reaches it at the sum 35 and the locator returns 35, and the number of rolls with
  sum at least 35 is \<open>3 ^ 34 - 1\<close>, one less than \<open>1 * 3 ^ 34 / 1\<close>.
\<close>

theorem validate_distro_rounded_threshold:
  "validate_distro 1 1 (replicate 34 3) = Inr (Some 35)
   \<and> int (length (filter (\<lambda>roll. 35 \<le> sum_list roll) (rolls_of (replicate 34 3))))
       = 16677181699666568
   \<and> 1 * num_cases_of (replicate 34 3) div 1 = 16677181699666569"
proof -
  have t: "int 34 + 1 = 35" by simp
  have p: "nat 3 ^ 34 - 1 = (16677181699666568 :: nat)" by simp
  from count_high_rolls[of 3 34]
  have c: "length (filter (\<lambda>roll. 35 \<le> sum_list roll) (rolls_of (replicate 34 3)))
             = 16677181699666568"
    unfolding t p by simp
  from second_sum_of_replicate[of 34 3]
  have m: "35 \<in> set (map sum_list (rolls_of (replicate 34 3)))"
    unfolding t by simp
  have "validate_distro 1 1 (replicate 34 3) = Inr (Some 35)"
    by (rule validate_distro_hit[OF _ _ target_cases_34_d3 m]) (simp_all add: c)
  with c show ?thesis by (simp add: num_cases_34_d3)
qed

end
